theory Spec2Isabelle
  imports Complex_Main
begin

section \<open>Python strings\<close>

text \<open>
  A Python \<^verbatim>\<open>str\<close> is a sequence of Unicode code points, so it is modelled as a list of
  natural numbers (the ordinals). \<open>lit\<close> turns an ASCII literal into such a string.
\<close>

type_synonym str = "nat list"

definition lit :: "string \<Rightarrow> str" where
  "lit s = map of_char s"

text \<open>
  The characters that \<^verbatim>\<open>str.split()\<close>, \<^verbatim>\<open>str.strip()\<close> and \<^verbatim>\<open>str.isspace()\<close> treat as
  whitespace (CPython's \<^verbatim>\<open>_PyUnicode_IsWhitespace\<close>): U+0009..U+000D, U+001C..U+0020, U+0085,
  U+00A0, U+1680, U+2000..U+200A, U+2028, U+2029, U+202F, U+205F and U+3000.
\<close>

definition isspace :: "nat \<Rightarrow> bool" where
  "isspace c \<longleftrightarrow>
     (9 \<le> c \<and> c \<le> 13) \<or> (28 \<le> c \<and> c \<le> 32) \<or> c = 133 \<or> c = 160 \<or> c = 5760 \<or>
     (8192 \<le> c \<and> c \<le> 8202) \<or> c = 8232 \<or> c = 8233 \<or> c = 8239 \<or> c = 8287 \<or> c = 12288"

text \<open>
  \<^verbatim>\<open>text.split()\<close> with no argument: the maximal runs of non-whitespace characters, in order;
  leading, trailing and repeated whitespace produce no empty word.
\<close>

function py_split :: "str \<Rightarrow> str list" where
  "py_split [] = []"
| "py_split (c # cs) =
     (if isspace c then py_split cs
      else (c # takeWhile (\<lambda>x. \<not> isspace x) cs) # py_split (dropWhile (\<lambda>x. \<not> isspace x) cs))"
  by pat_completeness auto
termination
  by (relation "measure length") (auto simp: length_dropWhile_le less_Suc_eq_le)

text \<open>\<^verbatim>\<open>sep.join(words)\<close>.\<close>

fun py_join :: "str \<Rightarrow> str list \<Rightarrow> str" where
  "py_join sep [] = []"
| "py_join sep [w] = w"
| "py_join sep (w # ws) = w @ sep @ py_join sep ws"

text \<open>\<^verbatim>\<open>s.strip()\<close>: whitespace removed from both ends.\<close>

definition py_strip :: "str \<Rightarrow> str" where
  "py_strip s = rev (dropWhile isspace (rev (dropWhile isspace s)))"

text \<open>
  A slice \<^verbatim>\<open>xs[lo:hi]\<close>: a negative bound counts from the end, and both bounds are clamped
  to the list, so a slice never raises.
\<close>

definition slice_index :: "int \<Rightarrow> nat \<Rightarrow> nat" where
  "slice_index i n = (if i < 0 then nat (max 0 (i + int n)) else min (nat i) n)"

definition slice :: "'a list \<Rightarrow> int \<Rightarrow> int \<Rightarrow> 'a list" where
  "slice xs lo hi =
     (let a = slice_index lo (length xs); b = slice_index hi (length xs)
      in take (b - a) (drop a xs))"

section \<open>Exceptions\<close>

text \<open>
  The exceptions the program raises itself: \<^verbatim>\<open>ValueError\<close> (unsupported file format, a zero
  step given to \<^verbatim>\<open>range\<close>) and \<^verbatim>\<open>RuntimeError\<close> (extraction retries exhausted).
  \<open>OtherError\<close> stands for any exception raised by a library while reading the input.
\<close>

datatype exn = ValueError | RuntimeError | OtherError

section \<open>Chunker: \<^verbatim>\<open>smart_split_text\<close>\<close>

text \<open>
  The values \<^verbatim>\<open>range(i, stop, step)\<close> runs through, for a non-zero step: the loop of line 51
  visits them in this order. A zero step makes \<^verbatim>\<open>range\<close> raise \<^verbatim>\<open>ValueError\<close>.
\<close>

function range_list :: "int \<Rightarrow> int \<Rightarrow> int \<Rightarrow> int list" where
  "range_list i stop step =
     (if (0 < step \<and> i < stop) \<or> (step < 0 \<and> stop < i)
      then i # range_list (i + step) stop step else [])"
  by pat_completeness auto
termination
  by (relation "measure (\<lambda>(i, stop, step). nat (if 0 < step then stop - i else i - stop))") auto

declare range_list.simps [simp del]

definition py_range :: "int \<Rightarrow> int \<Rightarrow> int \<Rightarrow> exn + int list" where
  "py_range start stop step =
     (if step = 0 then Inl ValueError else Inr (range_list start stop step))"

definition smart_split_text :: "str \<Rightarrow> int \<Rightarrow> int \<Rightarrow> exn + str list" where
  "smart_split_text text model_max_tokens buffer_tokens =
     (let words = py_split text;
          total_words = int (length words);
          max_words_per_chunk = model_max_tokens - buffer_tokens
      in if total_words \<le> max_words_per_chunk then Inr [text]
         else case py_range 0 total_words max_words_per_chunk of
                Inl e \<Rightarrow> Inl e
              | Inr is \<Rightarrow>
                  Inr (map (\<lambda>i. py_join (lit '' '') (slice words i (i + max_words_per_chunk))) is))"

section \<open>The world outside the program\<close>

text \<open>
  One call of \<^verbatim>\<open>client.text_generation\<close> either raises an \<^verbatim>\<open>Exception\<close> or returns the
  generated text. The remote service is a function from the number of calls made before
  (over the whole run) and the prompt to the outcome of the call, which covers every way
  the service may answer a given sequence of calls.
\<close>

datatype outcome = Raises | Returns str

type_synonym service = "nat \<Rightarrow> str \<Rightarrow> outcome"

text \<open>Where the SMTP block of \<^verbatim>\<open>send_docx_via_email\<close> (lines 162 to 165) can raise.\<close>

datatype smtp_failure = ConnectFailed | StartTlsFailed | LoginFailed | SendFailed

text \<open>The lines the program prints, by the \<^verbatim>\<open>print\<close> call that writes them.\<close>

datatype message =
    RetryError int int
  | Waiting nat
  | InvalidEmailsWarning "str set"
  | RecipientsFileError
  | EmailSent "str list"
  | EmailFailed smtp_failure
  | ReadingDocument
  | SplittingDocument
  | TotalChunks nat
  | ReadingRecipients
  | SendingEmail
  | Done

text \<open>
  The effects besides printing, in the order they happen: a call of the text-generation
  service with its prompt, a \<^verbatim>\<open>time.sleep\<close> with its number of seconds, and an attempt to
  deliver the document by SMTP, with the recipients and the structured texts the attached
  document is rendered from.
\<close>

datatype event =
    TextGeneration str
  | Sleep nat
  | SmtpAttempt "str list" "str list"

record world =
  calls :: nat
  trace :: "event list"
  stdout :: "message list"

definition print :: "message \<Rightarrow> world \<Rightarrow> world" where
  "print msg w = w\<lparr>stdout := stdout w @ [msg]\<rparr>"

text \<open>The world at the start of a run: nothing called, nothing printed.\<close>

definition start :: world where
  "start = \<lparr>calls = 0, trace = [], stdout = []\<rparr>"

section \<open>Extraction client: \<^verbatim>\<open>extract_use_cases\<close>\<close>

definition prompt_template :: "str \<Rightarrow> str" where
  "prompt_template text = py_join [10]
     [ [],
       lit ''    You are a Business Analyst assistant.'',
       [],
       lit ''    Analyze the following business-related text and extract detailed, structured Use Cases.'',
       [],
       lit ''    Document:'',
       lit ''    '',
       lit ''    '' @ text,
       [],
       lit ''    Format your output exactly like this for each Use Case:'',
       lit ''    - Use Case Title:'',
       lit ''    - Actor(s):'',
       lit ''    - Preconditions:'',
       lit ''    - Trigger:'',
       lit ''    - Main Flow:'',
       lit ''    - Alternative Flows:'',
       lit ''    - Postconditions:'',
       lit ''    - Notes:'',
       [],
       lit ''    Do not include any extra text or explanations. Strictly follow the format. Be clean, professional, and concise.'',
       lit ''    '' ]"

text \<open>
  The \<^verbatim>\<open>while\<close> loop of lines 82 to 97 and the \<^verbatim>\<open>raise\<close> of line 99. A result \<open>Inl (e, w)\<close>
  is the exception \<open>e\<close> raised in world \<open>w\<close>, a result \<open>Inr (r, w)\<close> the value \<open>r\<close> returned
  in world \<open>w\<close>.
\<close>

function extract_loop ::
  "service \<Rightarrow> str \<Rightarrow> int \<Rightarrow> int \<Rightarrow> world \<Rightarrow> (exn \<times> world) + (str \<times> world)" where
  "extract_loop svc prompt max_retries attempt w =
     (if attempt < max_retries then
        (case svc (calls w) prompt of
           Returns response \<Rightarrow>
             Inr (response, w\<lparr>calls := calls w + 1, trace := trace w @ [TextGeneration prompt]\<rparr>)
         | Raises \<Rightarrow>
             extract_loop svc prompt max_retries (attempt + 1)
               (w\<lparr>calls := calls w + 1,
                  trace := trace w @ [TextGeneration prompt, Sleep (2 ^ nat attempt)],
                  stdout := stdout w @ [RetryError (attempt + 1) max_retries,
                                        Waiting (2 ^ nat attempt)]\<rparr>))
      else Inl (RuntimeError, w))"
  by pat_completeness auto
termination
  by (relation "measure (\<lambda>(svc, prompt, max_retries, attempt, w). nat (max_retries - attempt))")
    auto

declare extract_loop.simps [simp del]

definition extract_use_cases ::
  "service \<Rightarrow> str \<Rightarrow> int \<Rightarrow> world \<Rightarrow> (exn \<times> world) + (str \<times> world)" where
  "extract_use_cases svc text max_retries w =
     extract_loop svc (prompt_template text) max_retries 0 w"

section \<open>Recipients: \<^verbatim>\<open>is_valid_email\<close>, \<^verbatim>\<open>read_recipients_from_file\<close>\<close>

text \<open>
  The pattern of line 102, matched from the start of the string by \<^verbatim>\<open>re.match\<close>. Each piece
  of the pattern takes the matcher of the rest of the pattern: \<open>rep1 P k\<close> is one or more
  characters of class \<open>P\<close> followed by \<open>k\<close>, \<open>one P k\<close> is one character of class \<open>P\<close> followed
  by \<open>k\<close>, and \<open>at_end\<close> is \<^verbatim>\<open>$\<close>, which matches at the end of the string and before a newline
  that ends the string.
\<close>

fun rep1 :: "(nat \<Rightarrow> bool) \<Rightarrow> (str \<Rightarrow> bool) \<Rightarrow> str \<Rightarrow> bool" where
  "rep1 P k [] = False"
| "rep1 P k (c # cs) = (P c \<and> (rep1 P k cs \<or> k cs))"

fun one :: "(nat \<Rightarrow> bool) \<Rightarrow> (str \<Rightarrow> bool) \<Rightarrow> str \<Rightarrow> bool" where
  "one P k [] = False"
| "one P k (c # cs) = (P c \<and> k cs)"

definition at_end :: "str \<Rightarrow> bool" where
  "at_end s \<longleftrightarrow> s = [] \<or> s = [10]"

definition alpha :: "nat \<Rightarrow> bool" where
  "alpha c \<longleftrightarrow> (97 \<le> c \<and> c \<le> 122) \<or> (65 \<le> c \<and> c \<le> 90)"

definition digit :: "nat \<Rightarrow> bool" where
  "digit c \<longleftrightarrow> 48 \<le> c \<and> c \<le> 57"

definition local_char :: "nat \<Rightarrow> bool" where
  "local_char c \<longleftrightarrow> alpha c \<or> digit c \<or> c \<in> set (lit ''._%+-'')"

definition domain_char :: "nat \<Rightarrow> bool" where
  "domain_char c \<longleftrightarrow> alpha c \<or> digit c \<or> c \<in> set (lit ''.-'')"

definition is_valid_email :: "str \<Rightarrow> bool" where
  "is_valid_email email =
     rep1 local_char (one (\<lambda>c. c = 64) (rep1 domain_char (one (\<lambda>c. c = 46)
       (one alpha (rep1 alpha at_end))))) email"

text \<open>
  The recipients file is \<open>None\<close> when opening or reading it raises, and otherwise the lines
  that iterating over it yields.
\<close>

definition read_recipients_from_file :: "str list option \<Rightarrow> world \<Rightarrow> str list \<times> world" where
  "read_recipients_from_file file w =
     (case file of
        None \<Rightarrow> ([], print RecipientsFileError w)
      | Some lines \<Rightarrow>
          (let recipient_emails = map py_strip (filter (\<lambda>line. py_strip line \<noteq> []) lines);
               valid_emails = filter is_valid_email recipient_emails;
               invalid_emails = set recipient_emails - set valid_emails
           in (valid_emails,
               if invalid_emails \<noteq> {} then print (InvalidEmailsWarning invalid_emails) w else w)))"

section \<open>Mailer: \<^verbatim>\<open>send_docx_via_email\<close>\<close>

text \<open>
  The document is built and saved by the python-docx library (lines 123 to 141), outside any
  \<^verbatim>\<open>try\<close>: an exception of the library there, such as the \<^verbatim>\<open>ValueError\<close> it raises for a
  structured text with a character that XML cannot hold, leaves \<^verbatim>\<open>send_docx_via_email\<close> before
  anything is sent. The library is not part of the program, so what it does is a parameter:
  \<open>rendering structured_texts\<close> is the exception that building and saving the document for
  these texts raises, and \<open>None\<close> when the document is saved. The layout of the document is
  not modelled.

  Then the message is composed and the SMTP block runs inside \<^verbatim>\<open>try\<close> (lines 161 to 168);
  \<open>smtp\<close> is \<open>None\<close> when the block completes and the step that raised otherwise. The
  \<^verbatim>\<open>except Exception\<close> branch prints and falls through, so once the document is saved the
  function returns in both cases. The delivery attempt is recorded with the recipients and
  the structured texts the attached document is rendered from.
\<close>

definition send_docx_via_email ::
  "(str list \<Rightarrow> exn option) \<Rightarrow> smtp_failure option \<Rightarrow> str list \<Rightarrow> str list \<Rightarrow> world
     \<Rightarrow> (exn \<times> world) + world" where
  "send_docx_via_email rendering smtp structured_texts recipient_emails w =
     (case rendering structured_texts of
        Some e \<Rightarrow> Inl (e, w)
      | None \<Rightarrow>
          (let w' = w\<lparr>trace := trace w @ [SmtpAttempt recipient_emails structured_texts]\<rparr>
           in case smtp of
                None \<Rightarrow> Inr (print (EmailSent recipient_emails) w')
              | Some failure \<Rightarrow> Inr (print (EmailFailed failure) w')))"

section \<open>Orchestrator: \<^verbatim>\<open>main\<close>\<close>

text \<open>
  What a run depends on: the outcome of \<^verbatim>\<open>read_document(input_path)\<close> (the text, or the
  exception it raises, \<^verbatim>\<open>ValueError\<close> for an unsupported extension), the text-generation
  service, the recipients file, what rendering the document raises and the outcome of the
  SMTP block.
\<close>

record env =
  document :: "exn + str"
  service :: service
  recipients_file :: "str list option"
  rendering :: "str list \<Rightarrow> exn option"
  smtp :: "smtp_failure option"

text \<open>
  A run of \<^verbatim>\<open>main\<close> either ends with an uncaught exception or returns; in both cases with the
  value of \<^verbatim>\<open>all_structured_outputs\<close> at that moment (empty when the run ends before the
  loop) and the world it leaves.
\<close>

datatype run = Aborted exn "str list" world | Finished "str list" world

fun run_outputs :: "run \<Rightarrow> str list" where
  "run_outputs (Aborted e outs w) = outs"
| "run_outputs (Finished outs w) = outs"

fun run_world :: "run \<Rightarrow> world" where
  "run_world (Aborted e outs w) = w"
| "run_world (Finished outs w) = w"

text \<open>The interpreter exits with status 1 on an uncaught exception and 0 otherwise.\<close>

fun exit_code :: "run \<Rightarrow> nat" where
  "exit_code (Aborted e outs w) = 1"
| "exit_code (Finished outs w) = 0"

text \<open>
  The \<^verbatim>\<open>for\<close> loop of lines 179 to 181, with \<^verbatim>\<open>max_retries\<close> at its default 5. When an
  extraction raises, the loop is left with the outputs appended so far.
\<close>

fun process_chunks ::
  "service \<Rightarrow> str list \<Rightarrow> str list \<Rightarrow> world \<Rightarrow> (exn \<times> str list \<times> world) + (str list \<times> world)" where
  "process_chunks svc [] all_structured_outputs w = Inr (all_structured_outputs, w)"
| "process_chunks svc (chunk # chunks) all_structured_outputs w =
     (case extract_use_cases svc chunk 5 w of
        Inl (e, w') \<Rightarrow> Inl (e, all_structured_outputs, w')
      | Inr (structured_text, w') \<Rightarrow>
          process_chunks svc chunks (all_structured_outputs @ [structured_text]) w')"

text \<open>
  Lines 177 to 194 of \<^verbatim>\<open>main\<close>: what it does once the chunks are there. Neither the
  exception of an extraction nor that of the rendering is caught, so each ends the run.
\<close>

definition main_from_chunks :: "env \<Rightarrow> str list \<Rightarrow> world \<Rightarrow> run" where
  "main_from_chunks env chunks w =
     (case process_chunks (service env) chunks [] w of
        Inl (e, all_structured_outputs, w') \<Rightarrow> Aborted e all_structured_outputs w'
      | Inr (all_structured_outputs, w') \<Rightarrow>
          (let (recipient_emails, w1) =
                 read_recipients_from_file (recipients_file env) (print ReadingRecipients w')
           in case send_docx_via_email (rendering env) (smtp env) all_structured_outputs
                     recipient_emails (print SendingEmail w1) of
                Inl (e, w2) \<Rightarrow> Aborted e all_structured_outputs w2
              | Inr w2 \<Rightarrow> Finished all_structured_outputs (print Done w2)))"

definition main :: "env \<Rightarrow> run" where
  "main env =
     (let w = print ReadingDocument start
      in case document env of
           Inl e \<Rightarrow> Aborted e [] w
         | Inr raw_text \<Rightarrow>
             (case smart_split_text raw_text 3000 500 of
                Inl e \<Rightarrow> Aborted e [] (print SplittingDocument w)
              | Inr chunks \<Rightarrow>
                  main_from_chunks env chunks
                    (print (TotalChunks (length chunks)) (print SplittingDocument w))))"

section \<open>Notions used to state the properties\<close>

text \<open>The events that happened between world \<open>w\<close> and a later world \<open>w'\<close>.\<close>

definition new_events :: "world \<Rightarrow> world \<Rightarrow> event list" where
  "new_events w w' = drop (length (trace w)) (trace w')"

text \<open>The world in which an operation raised or returned.\<close>

fun final_world :: "(exn \<times> world) + ('a \<times> world) \<Rightarrow> world" where
  "final_world (Inl (e, w)) = w"
| "final_world (Inr (r, w)) = w"

text \<open>
  No extraction raises: the extraction of each chunk, made with \<^verbatim>\<open>max_retries\<close> at its default
  5 in the world that the chunks before it left, returns.
\<close>

fun extractions_return :: "service \<Rightarrow> str list \<Rightarrow> world \<Rightarrow> bool" where
  "extractions_return svc [] w = True"
| "extractions_return svc (chunk # chunks) w =
     (case extract_use_cases svc chunk 5 w of
        Inl (e, w') \<Rightarrow> False
      | Inr (structured_text, w') \<Rightarrow> extractions_return svc chunks w')"

text \<open>The number of calls of the text-generation service among some events.\<close>

fun service_calls :: "event list \<Rightarrow> nat" where
  "service_calls [] = 0"
| "service_calls (TextGeneration p # evs) = Suc (service_calls evs)"
| "service_calls (ev # evs) = service_calls evs"

text \<open>
  An event that extracting one of the given chunks can cause: a service call with the
  prompt of one of them, or a wait. A delivery attempt is not one.
\<close>

fun extraction_of :: "str set \<Rightarrow> event \<Rightarrow> bool" where
  "extraction_of chunks (TextGeneration p) = (p \<in> prompt_template ` chunks)"
| "extraction_of chunks (Sleep d) = True"
| "extraction_of chunks (SmtpAttempt recipient_emails structured_texts) = False"

text \<open>The waits among some events, in order.\<close>

fun waits :: "event list \<Rightarrow> nat list" where
  "waits [] = []"
| "waits (Sleep d # evs) = d # waits evs"
| "waits (ev # evs) = waits evs"

text \<open>
  The events of \<open>n\<close> attempts in a row that all fail, the first of them made with the loop
  counter \<^verbatim>\<open>attempt\<close> at \<open>a\<close>: each is a call followed by its backoff wait.
\<close>

fun failed_attempts :: "str \<Rightarrow> nat \<Rightarrow> nat \<Rightarrow> event list" where
  "failed_attempts p a 0 = []"
| "failed_attempts p a (Suc n) = TextGeneration p # Sleep (2 ^ a) # failed_attempts p (Suc a) n"

section \<open>Example inputs\<close>

text \<open>A service whose first two calls fail, and a service that is down.\<close>

definition svc_two_failures :: service where
  "svc_two_failures n p = (if n < 2 then Raises else Returns (lit ''ok''))"

definition svc_down :: service where
  "svc_down n p = Raises"

text \<open>A service that answers its first call only, and one that answers with the prompt.\<close>

definition svc_first_only :: service where
  "svc_first_only n p = (if n = 0 then Returns (lit ''uc1'') else Raises)"

definition svc_echo :: service where
  "svc_echo n p = Returns p"

text \<open>
  Runs with these services, on a document of one word and one recipient, in which every
  document is rendered.
\<close>

definition env_first_only :: env where
  "env_first_only = \<lparr>document = Inr (lit ''a''), service = svc_first_only,
     recipients_file = Some [lit ''a@b.com''], rendering = (\<lambda>structured_texts. None),
     smtp = None\<rparr>"

definition env_echo :: env where
  "env_echo = \<lparr>document = Inr (lit ''a''), service = svc_echo,
     recipients_file = Some [lit ''a@b.com''], rendering = (\<lambda>structured_texts. None),
     smtp = None\<rparr>"

text \<open>
  A run in which extraction succeeds, the document is rendered and the login to the mail
  server is refused.
\<close>

definition env_login_refused :: env where
  "env_login_refused = \<lparr>document = Inr (lit ''a''), service = svc_echo,
     recipients_file = Some [lit ''a@b.com''], rendering = (\<lambda>structured_texts. None),
     smtp = Some LoginFailed\<rparr>"

text \<open>
  A run in which the service answers with a form feed between two letters and the library
  refuses to render a text that holds a form feed.
\<close>

definition env_form_feed :: env where
  "env_form_feed = \<lparr>document = Inr (lit ''a''),
     service = (\<lambda>n p. Returns [97, 12, 98]),
     recipients_file = Some [lit ''a@b.com''],
     rendering = (\<lambda>structured_texts.
        if \<exists>t\<in>set structured_texts. 12 \<in> set t then Some ValueError else None),
     smtp = None\<rparr>"

section \<open>Properties of the chunker\<close>

lemma lit_space: "lit '' '' = [32]"
  by (simp add: lit_def)

lemma isspace_32: "isspace 32"
  by (simp add: isspace_def)

lemma py_split_words:
  "w \<in> set (py_split s) \<Longrightarrow> w \<noteq> [] \<and> (\<forall>c\<in>set w. \<not> isspace c)"
proof (induction s arbitrary: w rule: py_split.induct)
  case 1
  then show ?case by simp
next
  case (2 c cs)
  show ?case
  proof (cases "isspace c")
    case True
    with 2 show ?thesis by simp
  next
    case False
    with 2(3) have "w = c # takeWhile (\<lambda>x. \<not> isspace x) cs
        \<or> w \<in> set (py_split (dropWhile (\<lambda>x. \<not> isspace x) cs))"
      by simp
    then show ?thesis
    proof
      assume "w = c # takeWhile (\<lambda>x. \<not> isspace x) cs"
      with False show ?thesis by (auto dest: set_takeWhileD)
    next
      assume "w \<in> set (py_split (dropWhile (\<lambda>x. \<not> isspace x) cs))"
      with 2(2) [OF False] show ?thesis by blast
    qed
  qed
qed

lemma py_split_word_sep:
  assumes "w \<noteq> []" and "\<forall>c\<in>set w. \<not> isspace c"
  shows "py_split (w @ 32 # rest) = w # py_split rest"
proof -
  obtain c cs where w: "w = c # cs" using assms(1) by (cases w) auto
  have tw: "takeWhile (\<lambda>x. \<not> isspace x) (cs @ 32 # rest) = cs"
    using assms(2) w by (simp add: takeWhile_append2 isspace_32)
  have dw: "dropWhile (\<lambda>x. \<not> isspace x) (cs @ 32 # rest) = 32 # rest"
    using assms(2) w by (simp add: dropWhile_append2 isspace_32)
  show ?thesis using assms(2) w tw dw by (simp add: isspace_32)
qed

lemma py_split_word:
  assumes "w \<noteq> []" and "\<forall>c\<in>set w. \<not> isspace c"
  shows "py_split w = [w]"
proof -
  obtain c cs where w: "w = c # cs" using assms(1) by (cases w) auto
  have tw: "takeWhile (\<lambda>x. \<not> isspace x) cs = cs"
    using assms(2) w by (simp add: takeWhile_eq_all_conv)
  have dw: "dropWhile (\<lambda>x. \<not> isspace x) cs = []"
    using assms(2) w by simp
  have "\<not> isspace c" using assms(2) w by simp
  then show ?thesis unfolding w by (simp add: tw dw)
qed

lemma py_split_join:
  "\<forall>w\<in>set ws. w \<noteq> [] \<and> (\<forall>c\<in>set w. \<not> isspace c) \<Longrightarrow> py_split (py_join [32] ws) = ws"
proof (induction "[32::nat]" ws rule: py_join.induct)
  case 1
  then show ?case by simp
next
  case (2 w)
  then show ?case by (simp add: py_split_word)
next
  case (3 w v vs)
  then show ?case by (simp add: py_split_word_sep)
qed


lemma slice_window:
  assumes "0 \<le> i" and "0 \<le> m"
  shows "slice ws i (i + m) = take (nat m) (drop (nat i) ws)"
proof (cases "nat (i + m) \<le> length ws")
  case True
  then show ?thesis using assms
    by (simp add: slice_def slice_index_def Let_def min_def nat_add_distrib)
next
  case False
  then show ?thesis using assms
    by (simp add: slice_def slice_index_def Let_def min_def nat_add_distrib)
qed

lemma range_list_concat:
  "0 < m \<Longrightarrow> 0 \<le> i \<Longrightarrow>
    concat (map (\<lambda>j. slice ws j (j + m)) (range_list i (int (length ws)) m)) = drop (nat i) ws"
proof (induction i "int (length ws)" m rule: range_list.induct)
  case (1 i step)
  show ?case
  proof (cases "i < int (length ws)")
    case True
    then have ih: "concat (map (\<lambda>j. slice ws j (j + step)) (range_list (i + step) (int (length ws)) step))
        = drop (nat (i + step)) ws"
      using 1 by simp
    have "range_list i (int (length ws)) step = i # range_list (i + step) (int (length ws)) step"
      using True 1(2) by (subst range_list.simps) simp
    then have "concat (map (\<lambda>j. slice ws j (j + step)) (range_list i (int (length ws)) step))
        = take (nat step) (drop (nat i) ws) @ drop (nat (i + step)) ws"
      using ih 1(2,3) by (simp add: slice_window)
    also have "nat (i + step) = nat step + nat i"
      using 1(2,3) by (simp add: nat_add_distrib)
    also have "take (nat step) (drop (nat i) ws) @ drop (nat step + nat i) ws = drop (nat i) ws"
      by (metis append_take_drop_id drop_drop)
    finally show ?thesis .
  next
    case False
    then show ?thesis using 1(2,3) by (subst range_list.simps) simp
  qed
qed

lemma range_list_length:
  "0 < m \<Longrightarrow> int (length (range_list i n m)) = max 0 (- ((i - n) div m))"
proof (induction i n m rule: range_list.induct)
  case (1 i stop step)
  show ?case
  proof (cases "i < stop")
    case True
    have rl: "range_list i stop step = i # range_list (i + step) stop step"
      using True 1(2) by (subst range_list.simps) simp
    have d: "(i + step - stop) div step = (i - stop) div step + 1"
    proof -
      have "i + step - stop = (i - stop) + step" by simp
      then show ?thesis using 1(2) by (simp only: div_add_self2) 
    qed
    have neg: "(i - stop) div step < 0"
      using True 1(2) by (simp add: div_neg_pos_less0)
    show ?thesis using 1 True d neg by (simp add: rl)
  next
    case False
    then have "0 \<le> (i - stop) div step" using 1(2) by (simp add: pos_imp_zdiv_nonneg_iff)
    then show ?thesis using False 1(2) by (subst range_list.simps) simp
  qed
qed

lemma range_list_nth:
  "0 < m \<Longrightarrow> k < length (range_list i n m) \<Longrightarrow>
     range_list i n m ! k = i + int k * m \<and> range_list i n m ! k < n"
proof (induction i n m arbitrary: k rule: range_list.induct)
  case (1 i stop step)
  show ?case
  proof (cases "i < stop")
    case True
    have rl: "range_list i stop step = i # range_list (i + step) stop step"
      using True 1(2) by (subst range_list.simps) simp
    show ?thesis
    proof (cases k)
      case 0
      then show ?thesis using True by (simp add: rl)
    next
      case (Suc j)
      then have "j < length (range_list (i + step) stop step)" using 1(3) rl by simp
      then have "range_list (i + step) stop step ! j = i + step + int j * step
          \<and> range_list (i + step) stop step ! j < stop"
        using 1(1) [of j] 1(2) True by simp
      then show ?thesis using Suc by (simp add: rl algebra_simps)
    qed
  next
    case False
    then have "range_list i stop step = []" using 1(2) by (subst range_list.simps) simp
    then show ?thesis using 1(3) by simp
  qed
qed

lemma ceiling_div: "0 < (m::int) \<Longrightarrow> 0 \<le> n \<Longrightarrow> max 0 (- ((0 - n) div m)) = \<lceil>real_of_int n / real_of_int m\<rceil>"
  using div_nonpos_pos_le0 [of "- n" m] by (simp add: ceiling_divide_eq_div max_def)


lemma slice_subset: "set (slice xs lo hi) \<subseteq> set xs"
proof -
  have "set (slice xs lo hi) \<subseteq> set (drop (slice_index lo (length xs)) xs)"
    by (simp add: slice_def Let_def set_take_subset)
  then show ?thesis using set_drop_subset by fastforce
qed

lemma py_split_chunk:
  "py_split (py_join (lit '' '') (slice (py_split text) lo hi)) = slice (py_split text) lo hi"
proof -
  have "\<forall>w\<in>set (slice (py_split text) lo hi). w \<noteq> [] \<and> (\<forall>c\<in>set w. \<not> isspace c)"
    using slice_subset [of "py_split text" lo hi] py_split_words [of _ "text"] by blast
  then show ?thesis by (simp add: lit_space py_split_join)
qed

lemma smart_split_text_long:
  assumes "0 < model_max_tokens - buffer_tokens"
    and "model_max_tokens - buffer_tokens < int (length (py_split text))"
  shows "smart_split_text text model_max_tokens buffer_tokens =
     Inr (map (\<lambda>i. py_join (lit '' '')
                 (slice (py_split text) i (i + (model_max_tokens - buffer_tokens))))
            (range_list 0 (int (length (py_split text))) (model_max_tokens - buffer_tokens)))"
  using assms by (simp add: smart_split_text_def py_range_def Let_def)

text \<open>
  Claim C2, as amended. For every positive \<^verbatim>\<open>max_words_per_chunk = model_max_tokens - buffer_tokens\<close>
  and every text with more words than that, \<^verbatim>\<open>smart_split_text\<close> returns
  \<open>\<lceil>word count / max_words_per_chunk\<rceil>\<close> chunks, every chunk but the last has exactly
  \<^verbatim>\<open>max_words_per_chunk\<close> words, and splitting each chunk on whitespace and concatenating the
  results in order gives back the words of the text.
\<close>

theorem smart_split_text_chunks:
  assumes "0 < model_max_tokens - buffer_tokens"
    and "model_max_tokens - buffer_tokens < int (length (py_split text))"
  shows "\<exists>chunks. smart_split_text text model_max_tokens buffer_tokens = Inr chunks
     \<and> int (length chunks) =
         \<lceil>real (length (py_split text)) / real_of_int (model_max_tokens - buffer_tokens)\<rceil>
     \<and> (\<forall>k. k + 1 < length chunks \<longrightarrow>
            int (length (py_split (chunks ! k))) = model_max_tokens - buffer_tokens)
     \<and> concat (map py_split chunks) = py_split text"
proof -
  define m where "m = model_max_tokens - buffer_tokens"
  define ws where "ws = py_split text"
  define rl where "rl = range_list 0 (int (length ws)) m"
  define chunks where "chunks = map (\<lambda>i. py_join (lit '' '') (slice ws i (i + m))) rl"
  have m: "0 < m" and n: "m < int (length ws)"
    using assms by (simp_all add: m_def ws_def)
  have res: "smart_split_text text model_max_tokens buffer_tokens = Inr chunks"
    using smart_split_text_long [OF assms] by (simp add: chunks_def rl_def ws_def m_def)
  have len: "int (length chunks) = \<lceil>real (length ws) / real_of_int m\<rceil>"
    using range_list_length [OF m, of 0 "int (length ws)"] ceiling_div [OF m, of "int (length ws)"]
    by (simp add: chunks_def rl_def)
  have split_chunk: "py_split (py_join (lit '' '') (slice ws i (i + m))) = slice ws i (i + m)" for i
    unfolding ws_def by (rule py_split_chunk)
  have full: "int (length (py_split (chunks ! k))) = m" if k: "k + 1 < length chunks" for k
  proof -
    have k1: "k + 1 < length rl" and k0: "k < length rl" using k by (simp_all add: chunks_def)
    have at_k: "rl ! k = int k * m"
      using range_list_nth [OF m, of k 0 "int (length ws)"] k0 by (simp add: rl_def)
    have "rl ! (k + 1) = int (k + 1) * m \<and> rl ! (k + 1) < int (length ws)"
      using range_list_nth [OF m, of "k + 1" 0 "int (length ws)"] k1 by (simp add: rl_def)
    then have bound: "int k * m + m < int (length ws)" by (simp add: algebra_simps)
    have nonneg: "0 \<le> int k * m" using m by simp
    have "chunks ! k = py_join (lit '' '') (slice ws (int k * m) (int k * m + m))"
      using k0 at_k by (simp add: chunks_def)
    then have "py_split (chunks ! k) = slice ws (int k * m) (int k * m + m)"
      by (simp only: split_chunk)
    then have "py_split (chunks ! k) = take (nat m) (drop (nat (int k * m)) ws)"
      using slice_window [OF nonneg, of m ws] m by simp
    moreover have "nat m + nat (int k * m) \<le> length ws"
      using bound m nonneg by linarith
    ultimately show ?thesis using m by simp
  qed
  have "concat (map py_split chunks) = concat (map (\<lambda>i. slice ws i (i + m)) rl)"
    by (simp add: chunks_def comp_def split_chunk)
  also have "\<dots> = ws"
    using range_list_concat [OF m, of 0 ws] by (simp add: rl_def)
  finally have cat: "concat (map py_split chunks) = py_split text" by (simp add: ws_def)
  show ?thesis using res len full cat by (auto simp: ws_def m_def)
qed

text \<open>The text \<^verbatim>\<open>"a b c"\<close> with a budget of 3 - 1 = 2 words.\<close>

theorem smart_split_text_chunks_witness:
  "(0::int) < 3 - 1 \<and> (3::int) - 1 < int (length (py_split (lit ''a b c'')))
   \<and> (\<exists>chunks. smart_split_text (lit ''a b c'') 3 1 = Inr chunks
     \<and> int (length chunks) = \<lceil>real (length (py_split (lit ''a b c''))) / real_of_int (3 - 1)\<rceil>
     \<and> (\<forall>k. k + 1 < length chunks \<longrightarrow> int (length (py_split (chunks ! k))) = 3 - 1)
     \<and> concat (map py_split chunks) = py_split (lit ''a b c''))"
proof -
  have h1: "(0::int) < 3 - 1" by simp
  have h2: "(3::int) - 1 < int (length (py_split (lit ''a b c'')))"
    by (simp add: lit_def isspace_def)
  show ?thesis using smart_split_text_chunks [OF h1 h2] h1 h2 by blast
qed

text \<open>
  Claim C2 as it was stated puts no condition on the budget. With a negative budget
  (\<^verbatim>\<open>model_max_tokens = 0\<close>, \<^verbatim>\<open>buffer_tokens = 1\<close>) the two words of \<^verbatim>\<open>"a b"\<close> exceed it, the
  \<^verbatim>\<open>range\<close> is empty and no chunk is returned, so the words are lost; with a budget of zero
  (1 and 1) \<^verbatim>\<open>range\<close> raises \<^verbatim>\<open>ValueError\<close>.
\<close>

theorem smart_split_text_chunks_counterexample:
  "(0::int) - 1 < int (length (py_split (lit ''a b'')))
   \<and> smart_split_text (lit ''a b'') 0 1 = Inr []
   \<and> py_split (lit ''a b'') = [lit ''a'', lit ''b'']
   \<and> concat (map py_split []) \<noteq> py_split (lit ''a b'')
   \<and> (1::int) - 1 < int (length (py_split (lit ''a b'')))
   \<and> smart_split_text (lit ''a b'') 1 1 = Inl ValueError"
  by (simp add: smart_split_text_def py_range_def range_list.simps lit_def isspace_def)

text \<open>
  Claim C3. For every text whose word count is at most
  \<^verbatim>\<open>max_words_per_chunk = model_max_tokens - buffer_tokens\<close>, \<^verbatim>\<open>smart_split_text\<close> returns exactly
  one chunk, the text itself; with the default budget 3000 - 500 the empty text gives the
  one-element list holding the empty string, not the empty list.
\<close>

theorem smart_split_text_short:
  "(int (length (py_split text)) \<le> model_max_tokens - buffer_tokens \<longrightarrow>
      smart_split_text text model_max_tokens buffer_tokens = Inr [text])
   \<and> smart_split_text [] 3000 500 = Inr [[]]"
  by (simp add: smart_split_text_def Let_def)

text \<open>A text of two words, with its spacing kept.\<close>

theorem smart_split_text_short_witness:
  "int (length (py_split (lit ''a  b ''))) \<le> 3000 - 500
   \<and> smart_split_text (lit ''a  b '') 3000 500 = Inr [lit ''a  b '']"
proof -
  have h: "int (length (py_split (lit ''a  b ''))) \<le> 3000 - 500"
    by (simp add: lit_def isspace_def)
  show ?thesis using h smart_split_text_short [of "lit ''a  b ''" 3000 500] by blast
qed

section \<open>Properties of the extraction client\<close>

lemma failed_attempts_length: "length (failed_attempts p a n) = 2 * n"
  by (induction n arbitrary: a) simp_all

lemma failed_attempts_nth:
  "k < n \<Longrightarrow> failed_attempts p a n ! (2 * k) = TextGeneration p
     \<and> failed_attempts p a n ! (2 * k + 1) = Sleep (2 ^ (a + k))"
proof (induction n arbitrary: a k)
  case 0
  then show ?case by simp
next
  case (Suc n)
  show ?case
  proof (cases k)
    case 0
    then show ?thesis by simp
  next
    case (Suc j)
    then have "j < n" using Suc.prems by simp
    then have "failed_attempts p (Suc a) n ! (2 * j) = TextGeneration p
       \<and> failed_attempts p (Suc a) n ! (2 * j + 1) = Sleep (2 ^ (Suc a + j))"
      by (rule Suc.IH)
    then show ?thesis using Suc by simp
  qed
qed

lemma failed_attempts_calls: "service_calls (failed_attempts p a n) = n"
  by (induction n arbitrary: a) simp_all

lemma service_calls_append: "service_calls (xs @ ys) = service_calls xs + service_calls ys"
  by (induction xs rule: service_calls.induct) simp_all

lemma waits_append: "waits (xs @ ys) = waits xs @ waits ys"
  by (induction xs rule: waits.induct) simp_all

lemma failed_attempts_waits: "waits (failed_attempts p a n) = map (\<lambda>k. 2 ^ k) [a..<a + n]"
proof (induction n arbitrary: a)
  case 0
  then show ?case by simp
next
  case (Suc n)
  have "[a..<a + Suc n] = a # [Suc a..<Suc a + n]"
    by (simp add: upt_conv_Cons)
  then show ?case using Suc.IH [of "Suc a"] by simp
qed

lemma failed_attempts_last: "last (failed_attempts p a (Suc n)) = Sleep (2 ^ (a + n))"
proof (induction n arbitrary: a)
  case 0
  then show ?case by simp
next
  case (Suc n)
  have "failed_attempts p a (Suc (Suc n)) =
      TextGeneration p # Sleep (2 ^ a) # failed_attempts p (Suc a) (Suc n)"
    by simp
  moreover have "failed_attempts p (Suc a) (Suc n) \<noteq> []" by simp
  ultimately have "last (failed_attempts p a (Suc (Suc n))) = last (failed_attempts p (Suc a) (Suc n))"
    by (simp only: last.simps list.distinct if_False)
  then show ?case using Suc.IH [of "Suc a"] by simp
qed

lemma sum_powers_of_two: "sum_list (map (\<lambda>k. 2 ^ k) [0..<n]) = (2::nat) ^ n - 1"
  by (induction n) simp_all

lemma extract_loop_exhaust:
  "nat (m - a) = n \<Longrightarrow> 0 \<le> a \<Longrightarrow> \<forall>j<n. svc (calls w + j) p = Raises \<Longrightarrow>
     \<exists>w'. extract_loop svc p m a w = Inl (RuntimeError, w') \<and> calls w' = calls w + n
        \<and> trace w' = trace w @ failed_attempts p (nat a) n"
proof (induction n arbitrary: a w)
  case 0
  then have "\<not> a < m" by simp
  then show ?case by (subst extract_loop.simps) simp
next
  case (Suc n)
  define w1 where "w1 = w\<lparr>calls := calls w + 1,
      trace := trace w @ [TextGeneration p, Sleep (2 ^ nat a)],
      stdout := stdout w @ [RetryError (a + 1) m, Waiting (2 ^ nat a)]\<rparr>"
  have lt: "a < m" using Suc.prems(1) by linarith
  have first: "svc (calls w) p = Raises" using Suc.prems(3) by force
  have step: "extract_loop svc p m a w = extract_loop svc p m (a + 1) w1"
    using lt first by (subst extract_loop.simps) (simp add: w1_def)
  have rest: "\<forall>j<n. svc (calls w1 + j) p = Raises"
  proof (intro allI impI)
    fix j assume "j < n"
    then have "svc (calls w + Suc j) p = Raises" using Suc.prems(3) by blast
    then show "svc (calls w1 + j) p = Raises" by (simp add: w1_def)
  qed
  have "nat (m - (a + 1)) = n" and "0 \<le> a + 1" using Suc.prems(1,2) by linarith+
  then obtain w' where w': "extract_loop svc p m (a + 1) w1 = Inl (RuntimeError, w')"
      "calls w' = calls w1 + n" "trace w' = trace w1 @ failed_attempts p (nat (a + 1)) n"
    using Suc.IH [of "a + 1" w1] rest by blast
  have "nat (a + 1) = Suc (nat a)" using Suc.prems(2) by linarith
  then have "trace w' = trace w @ failed_attempts p (nat a) (Suc n)"
    using w'(3) by (simp add: w1_def)
  moreover have "calls w' = calls w + Suc n" using w'(2) by (simp add: w1_def)
  ultimately show ?case using step w'(1) by simp
qed

lemma extract_loop_success:
  "0 \<le> a \<Longrightarrow> a + int k < m \<Longrightarrow> \<forall>j<k. svc (calls w + j) p = Raises \<Longrightarrow>
   svc (calls w + k) p = Returns r \<Longrightarrow>
     \<exists>w'. extract_loop svc p m a w = Inr (r, w') \<and> calls w' = calls w + k + 1
        \<and> trace w' = trace w @ failed_attempts p (nat a) k @ [TextGeneration p]"
proof (induction k arbitrary: a w)
  case 0
  then show ?case by (subst extract_loop.simps) simp
next
  case (Suc k)
  define w1 where "w1 = w\<lparr>calls := calls w + 1,
      trace := trace w @ [TextGeneration p, Sleep (2 ^ nat a)],
      stdout := stdout w @ [RetryError (a + 1) m, Waiting (2 ^ nat a)]\<rparr>"
  have lt: "a < m" using Suc.prems(2) by linarith
  have first: "svc (calls w) p = Raises" using Suc.prems(3) by force
  have step: "extract_loop svc p m a w = extract_loop svc p m (a + 1) w1"
    using lt first by (subst extract_loop.simps) (simp add: w1_def)
  have rest: "\<forall>j<k. svc (calls w1 + j) p = Raises"
  proof (intro allI impI)
    fix j assume "j < k"
    then have "svc (calls w + Suc j) p = Raises" using Suc.prems(3) by blast
    then show "svc (calls w1 + j) p = Raises" by (simp add: w1_def)
  qed
  have ok: "svc (calls w1 + k) p = Returns r" using Suc.prems(4) by (simp add: w1_def)
  have "a + 1 + int k < m" and "0 \<le> a + 1" using Suc.prems(1,2) by linarith+
  then obtain w' where w': "extract_loop svc p m (a + 1) w1 = Inr (r, w')"
      "calls w' = calls w1 + k + 1"
      "trace w' = trace w1 @ failed_attempts p (nat (a + 1)) k @ [TextGeneration p]"
    using Suc.IH [of "a + 1" w1] rest ok by blast
  have "nat (a + 1) = Suc (nat a)" using Suc.prems(1) by linarith
  then have "trace w' = trace w @ failed_attempts p (nat a) (Suc k) @ [TextGeneration p]"
    using w'(3) by (simp add: w1_def)
  moreover have "calls w' = calls w + Suc k + 1" using w'(2) by (simp add: w1_def)
  ultimately show ?case using step w'(1) by simp
qed

lemma first_success:
  fixes f :: "nat \<Rightarrow> outcome"
  shows "(\<forall>j<n. f j = Raises) \<or> (\<exists>k<n. \<exists>r. (\<forall>j<k. f j = Raises) \<and> f k = Returns r)"
proof (cases "\<forall>j<n. f j = Raises")
  case True
  then show ?thesis by simp
next
  case False
  then obtain j where j: "j < n" "f j \<noteq> Raises" by blast
  define k where "k = (LEAST i. f i \<noteq> Raises)"
  have "f k \<noteq> Raises" unfolding k_def using j(2) by (rule LeastI)
  then obtain r where "f k = Returns r" by (cases "f k") auto
  moreover have "k \<le> j" unfolding k_def using j(2) by (rule Least_le)
  moreover have "\<forall>i<k. f i = Raises" unfolding k_def using not_less_Least by blast
  ultimately have "k < n \<and> (\<forall>i<k. f i = Raises) \<and> f k = Returns r" using j(1) by simp
  then show ?thesis by blast
qed


lemma new_events_append: "trace w' = trace w @ evs \<Longrightarrow> new_events w w' = evs"
  by (simp add: new_events_def)

lemma extract_use_cases_exhaust:
  assumes "\<forall>j<nat m. svc (calls w + j) (prompt_template text) = Raises"
  shows "\<exists>w'. extract_use_cases svc text m w = Inl (RuntimeError, w')
     \<and> trace w' = trace w @ failed_attempts (prompt_template text) 0 (nat m)
     \<and> new_events w w' = failed_attempts (prompt_template text) 0 (nat m)"
proof -
  obtain w' where "extract_loop svc (prompt_template text) m 0 w = Inl (RuntimeError, w')"
    and "trace w' = trace w @ failed_attempts (prompt_template text) (nat 0) (nat m)"
    using extract_loop_exhaust [of m 0 "nat m" svc w "prompt_template text"] assms by auto
  then show ?thesis by (auto simp: extract_use_cases_def new_events_append)
qed

lemma extract_use_cases_success:
  assumes "k < nat m" and "\<forall>j<k. svc (calls w + j) (prompt_template text) = Raises"
    and "svc (calls w + k) (prompt_template text) = Returns r"
  shows "\<exists>w'. extract_use_cases svc text m w = Inr (r, w')
     \<and> trace w' = trace w @ failed_attempts (prompt_template text) 0 k
          @ [TextGeneration (prompt_template text)]
     \<and> new_events w w' = failed_attempts (prompt_template text) 0 k
          @ [TextGeneration (prompt_template text)]"
proof -
  have "0 + int k < m" using assms(1) by linarith
  then obtain w' where "extract_loop svc (prompt_template text) m 0 w = Inr (r, w')"
    and "trace w' = trace w @ failed_attempts (prompt_template text) (nat 0) k
           @ [TextGeneration (prompt_template text)]"
    using extract_loop_success [of 0 k m svc w "prompt_template text" r] assms(2,3) by auto
  then show ?thesis by (auto simp: extract_use_cases_def new_events_append)
qed

lemma extract_use_cases_cases:
  "(\<exists>w'. extract_use_cases svc text m w = Inl (RuntimeError, w')
      \<and> (\<forall>j<nat m. svc (calls w + j) (prompt_template text) = Raises)
      \<and> trace w' = trace w @ failed_attempts (prompt_template text) 0 (nat m)
      \<and> new_events w w' = failed_attempts (prompt_template text) 0 (nat m))
   \<or> (\<exists>k r w'. extract_use_cases svc text m w = Inr (r, w')
      \<and> k < nat m \<and> (\<forall>j<k. svc (calls w + j) (prompt_template text) = Raises)
      \<and> svc (calls w + k) (prompt_template text) = Returns r
      \<and> trace w' = trace w @ failed_attempts (prompt_template text) 0 k
            @ [TextGeneration (prompt_template text)]
      \<and> new_events w w' = failed_attempts (prompt_template text) 0 k
            @ [TextGeneration (prompt_template text)])"
proof -
  consider "\<forall>j<nat m. svc (calls w + j) (prompt_template text) = Raises"
    | k r where "k < nat m" "\<forall>j<k. svc (calls w + j) (prompt_template text) = Raises"
        "svc (calls w + k) (prompt_template text) = Returns r"
    using first_success [of "nat m" "\<lambda>j. svc (calls w + j) (prompt_template text)"] by blast
  then show ?thesis
  proof cases
    case 1
    then show ?thesis using extract_use_cases_exhaust [of m svc w "text"] by blast
  next
    case 2
    then show ?thesis using extract_use_cases_success [of k m svc w "text" r] by blast
  qed
qed

text \<open>
  Claim C1. Let \<^verbatim>\<open>max_retries\<close> be at least 1. If the first attempt that succeeds is attempt \<open>k\<close>
  (counted from 0, with \<open>k < max_retries\<close>), \<^verbatim>\<open>extract_use_cases\<close> returns the response of that
  attempt after exactly \<open>k + 1\<close> service calls, so none is made after the success. It raises
  \<^verbatim>\<open>RuntimeError\<close> if and only if all \<^verbatim>\<open>max_retries\<close> attempts fail, it raises nothing else, and
  it never makes more than \<^verbatim>\<open>max_retries\<close> service calls.
\<close>

theorem extract_use_cases_retry:
  assumes "1 \<le> max_retries"
  shows "(\<forall>k r. k < nat max_retries
            \<and> (\<forall>j<k. svc (calls w + j) (prompt_template text) = Raises)
            \<and> svc (calls w + k) (prompt_template text) = Returns r \<longrightarrow>
          (\<exists>w'. extract_use_cases svc text max_retries w = Inr (r, w')
             \<and> service_calls (new_events w w') = k + 1))
     \<and> ((\<exists>w'. extract_use_cases svc text max_retries w = Inl (RuntimeError, w')) \<longleftrightarrow>
          (\<forall>j<nat max_retries. svc (calls w + j) (prompt_template text) = Raises))
     \<and> (\<forall>e w'. extract_use_cases svc text max_retries w = Inl (e, w') \<longrightarrow> e = RuntimeError)
     \<and> service_calls (new_events w (final_world (extract_use_cases svc text max_retries w)))
          \<le> nat max_retries"
proof -
  let ?p = "prompt_template text"
  let ?res = "extract_use_cases svc text max_retries w"
  have first: "\<exists>w'. ?res = Inr (r, w') \<and> service_calls (new_events w w') = k + 1"
    if "k < nat max_retries" "\<forall>j<k. svc (calls w + j) ?p = Raises"
       "svc (calls w + k) ?p = Returns r" for k r
    using extract_use_cases_success [of k max_retries svc w "text" r] that
    by (auto simp: service_calls_append failed_attempts_calls)
  have dich: "(\<exists>w'. ?res = Inl (RuntimeError, w')
        \<and> (\<forall>j<nat max_retries. svc (calls w + j) ?p = Raises)
        \<and> new_events w w' = failed_attempts ?p 0 (nat max_retries))
     \<or> (\<exists>k r w'. ?res = Inr (r, w') \<and> k < nat max_retries
        \<and> new_events w w' = failed_attempts ?p 0 k @ [TextGeneration ?p])"
    using extract_use_cases_cases [of svc "text" max_retries w] by blast
  have iff: "(\<exists>w'. ?res = Inl (RuntimeError, w')) \<longleftrightarrow>
      (\<forall>j<nat max_retries. svc (calls w + j) ?p = Raises)"
    using dich extract_use_cases_exhaust [of max_retries svc w "text"] by auto
  have err: "\<forall>e w'. ?res = Inl (e, w') \<longrightarrow> e = RuntimeError"
    using dich by auto
  have bound: "service_calls (new_events w (final_world ?res)) \<le> nat max_retries"
    using dich by (auto simp: service_calls_append failed_attempts_calls)
  show ?thesis using first iff err bound by blast
qed

text \<open>
  A service that fails twice and then answers, and a service that always fails, both with
  the default of 5 attempts.
\<close>

theorem extract_use_cases_retry_witness:
  "(1::int) \<le> 5
   \<and> (\<exists>w'. extract_use_cases svc_two_failures (lit ''x'') 5 start
            = Inr (lit ''ok'', w')
        \<and> service_calls (new_events start w') = 2 + 1)
   \<and> (\<exists>w'. extract_use_cases svc_down (lit ''x'') 5 start
            = Inl (RuntimeError, w'))"
proof -
  have h: "(1::int) \<le> 5" by simp
  let ?w = start
  have a: "(2::nat) < nat 5 \<and> (\<forall>j<2. svc_two_failures (calls ?w + j) (prompt_template (lit ''x'')) = Raises)
      \<and> svc_two_failures (calls ?w + 2) (prompt_template (lit ''x'')) = Returns (lit ''ok'')"
    by (simp add: svc_two_failures_def start_def)
  have b: "\<forall>j<nat 5. svc_down (calls ?w + j) (prompt_template (lit ''x'')) = Raises"
    by (simp add: svc_down_def)
  show ?thesis
    using extract_use_cases_retry [OF h, of svc_two_failures ?w "lit ''x''"]
      extract_use_cases_retry [OF h, of svc_down ?w "lit ''x''"] a b h
    by blast
qed

text \<open>
  Claim C10. With \<^verbatim>\<open>max_retries\<close> at most 0, \<^verbatim>\<open>extract_use_cases\<close> raises \<^verbatim>\<open>RuntimeError\<close> at once:
  the world is unchanged, so no service call is made and no wait performed.
\<close>

theorem extract_use_cases_no_attempt:
  "max_retries \<le> 0 \<Longrightarrow>
     extract_use_cases svc text max_retries w = Inl (RuntimeError, w) \<and> new_events w w = []"
  by (simp add: extract_use_cases_def extract_loop.simps new_events_def)

text \<open>
  With \<^verbatim>\<open>max_retries = 0\<close> even a service that would answer is not called.
\<close>

theorem extract_use_cases_no_attempt_witness:
  "(0::int) \<le> 0 \<and> extract_use_cases (\<lambda>n p. Returns (lit ''ok'')) (lit ''x'') 0
       start
     = Inl (RuntimeError, start)"
  using extract_use_cases_no_attempt [of 0 "\<lambda>n p. Returns (lit ''ok'')" "lit ''x''"
      start]
  by simp


text \<open>
  Claim C4. Number the retries from 0: retry \<open>k\<close> is the call made after \<open>k + 1\<close> failures,
  when the loop counter \<^verbatim>\<open>attempt\<close> was \<open>k\<close> at the failure before it. Whenever retry \<open>k\<close> is
  made (more than \<open>k + 1\<close> calls happen), the events \<open>2k\<close>, \<open>2k + 1\<close> and \<open>2k + 2\<close> of the
  extraction are the failing call, a wait of \<open>2 ^ k\<close> seconds, and retry \<open>k\<close>: the wait
  performed just before retry \<open>k\<close> is \<open>2 ^ k\<close>.
\<close>

theorem backoff_wait_before_retry:
  fixes svc :: service and chunk :: str and max_retries :: int and w :: world
  defines "evs \<equiv> new_events w (final_world (extract_use_cases svc chunk max_retries w))"
  shows "\<forall>k. Suc k < service_calls evs \<longrightarrow>
           evs ! (2 * k) = TextGeneration (prompt_template chunk)
         \<and> evs ! (2 * k + 1) = Sleep (2 ^ k)
         \<and> evs ! (2 * k + 2) = TextGeneration (prompt_template chunk)"
proof (intro allI impI)
  fix k
  let ?p = "prompt_template chunk"
  assume k: "Suc k < service_calls evs"
  consider n where "evs = failed_attempts ?p 0 n"
    | f where "evs = failed_attempts ?p 0 f @ [TextGeneration ?p]"
    using extract_use_cases_cases [of svc chunk max_retries w] unfolding evs_def by auto
  then show "evs ! (2 * k) = TextGeneration ?p \<and> evs ! (2 * k + 1) = Sleep (2 ^ k)
      \<and> evs ! (2 * k + 2) = TextGeneration ?p"
  proof cases
    case 1
    then have "Suc k < n" using k by (simp add: failed_attempts_calls)
    then show ?thesis
      using failed_attempts_nth [of k n ?p 0] failed_attempts_nth [of "Suc k" n ?p 0] 1
      by simp
  next
    case 2
    then have kf: "k < f" using k by (simp add: service_calls_append failed_attempts_calls)
    have len: "length (failed_attempts ?p 0 f) = 2 * f" by (rule failed_attempts_length)
    have a: "evs ! (2 * k) = TextGeneration ?p \<and> evs ! (2 * k + 1) = Sleep (2 ^ k)"
      using failed_attempts_nth [of k f ?p 0] kf 2 len by (simp add: nth_append)
    have b: "evs ! (2 * k + 2) = TextGeneration ?p"
    proof (cases "Suc k < f")
      case True
      then show ?thesis
        using failed_attempts_nth [of "Suc k" f ?p 0] 2 len by (simp add: nth_append)
    next
      case False
      then have "2 * k + 2 = length (failed_attempts ?p 0 f)" using kf len by simp
      then show ?thesis using 2 by (simp only: nth_append_length)
    qed
    show ?thesis using a b by simp
  qed
qed

text \<open>
  After two failures, retry 1 is preceded by a wait of 2 seconds.
\<close>

theorem backoff_wait_before_retry_witness:
  "Suc 1 < service_calls (new_events start
       (final_world (extract_use_cases svc_two_failures (lit ''x'') 5
          start)))
   \<and> new_events start
       (final_world (extract_use_cases svc_two_failures (lit ''x'') 5
          start)) ! (2 * 1 + 1) = Sleep (2 ^ 1)"
proof -
  have h: "Suc 1 < service_calls (new_events start
       (final_world (extract_use_cases svc_two_failures (lit ''x'') 5
          start)))"
    by (simp add: extract_use_cases_def extract_loop.simps svc_two_failures_def new_events_def
        start_def)
  show ?thesis
    using h backoff_wait_before_retry [of start
        svc_two_failures "lit ''x''" 5]
    by blast
qed

text \<open>
  Claim C9. Let \<^verbatim>\<open>max_retries\<close> be at least 1 and let every attempt fail. Then the last
  event before \<^verbatim>\<open>RuntimeError\<close> is raised is a wait of \<open>2 ^ (max_retries - 1)\<close> seconds, which
  no attempt follows; the waits are \<open>2 ^ 0, \<dots>, 2 ^ (max_retries - 1)\<close> and add up to
  \<open>2 ^ max_retries - 1\<close> seconds.
\<close>

theorem backoff_total_wait:
  assumes "1 \<le> max_retries"
    and "\<forall>j<nat max_retries. svc (calls w + j) (prompt_template text) = Raises"
  shows "\<exists>w'. extract_use_cases svc text max_retries w = Inl (RuntimeError, w')
      \<and> last (new_events w w') = Sleep (2 ^ (nat max_retries - 1))
      \<and> waits (new_events w w') = map (\<lambda>k. 2 ^ k) [0..<nat max_retries]
      \<and> sum_list (waits (new_events w w')) = 2 ^ nat max_retries - 1"
proof -
  obtain w' where res: "extract_use_cases svc text max_retries w = Inl (RuntimeError, w')"
    and evs: "new_events w w' = failed_attempts (prompt_template text) 0 (nat max_retries)"
    using extract_use_cases_exhaust [of max_retries svc w "text"] assms(2) by blast
  obtain n where n: "nat max_retries = Suc n" using assms(1) by (cases "nat max_retries") auto
  have l: "last (new_events w w') = Sleep (2 ^ (nat max_retries - 1))"
    using failed_attempts_last [of "prompt_template text" 0 n] by (simp add: evs n)
  have ws: "waits (new_events w w') = map (\<lambda>k. 2 ^ k) [0..<nat max_retries]"
    using failed_attempts_waits [of "prompt_template text" 0 "nat max_retries"] by (simp add: evs)
  have "sum_list (waits (new_events w w')) = 2 ^ nat max_retries - 1"
    unfolding ws by (rule sum_powers_of_two)
  then show ?thesis using res l ws by blast
qed

text \<open>
  Five failed attempts: the last wait is 16 seconds and the total 31.
\<close>

theorem backoff_total_wait_witness:
  "(1::int) \<le> 5
   \<and> list_all (\<lambda>j. svc_down (calls start + j) (prompt_template (lit ''x'')) = Raises) [0..<nat 5]
   \<and> (\<exists>w'. extract_use_cases svc_down (lit ''x'') 5 start = Inl (RuntimeError, w')
      \<and> last (new_events start w') = Sleep (2 ^ (nat 5 - 1))
      \<and> sum_list (waits (new_events start w')) = 2 ^ nat 5 - 1)"
proof -
  have h1: "(1::int) \<le> 5" by simp
  have h2: "\<forall>j<nat 5. svc_down (calls start + j) (prompt_template (lit ''x'')) = Raises"
    by (simp add: svc_down_def)
  have h3: "list_all (\<lambda>j. svc_down (calls start + j) (prompt_template (lit ''x'')) = Raises)
      [0..<nat 5]"
    by (simp add: svc_down_def list_all_iff)
  have "\<exists>w'. extract_use_cases svc_down (lit ''x'') 5 start = Inl (RuntimeError, w')
      \<and> last (new_events start w') = Sleep (2 ^ (nat 5 - 1))
      \<and> sum_list (waits (new_events start w')) = 2 ^ nat 5 - 1"
    using backoff_total_wait [of 5 svc_down start "lit ''x''"] h1 h2 by blast
  then show ?thesis using h1 h3 by (intro conjI)
qed

section \<open>Properties of the orchestrator\<close>

lemma failed_attempts_events:
  "ev \<in> set (failed_attempts p a n) \<Longrightarrow> ev = TextGeneration p \<or> (\<exists>d. ev = Sleep d)"
  by (induction n arbitrary: a) auto

lemma extract_use_cases_trace:
  "\<exists>evs. trace (final_world (extract_use_cases svc text m w)) = trace w @ evs
     \<and> (\<forall>ev\<in>set evs. extraction_of {text} ev)"
proof -
  let ?p = "prompt_template text"
  have ok: "extraction_of {text} ev" if "ev \<in> set (failed_attempts ?p 0 n)" for ev n
    using failed_attempts_events [OF that] by auto
  consider w' where "extract_use_cases svc text m w = Inl (RuntimeError, w')"
      "trace w' = trace w @ failed_attempts ?p 0 (nat m)"
    | k r w' where "extract_use_cases svc text m w = Inr (r, w')"
      "trace w' = trace w @ failed_attempts ?p 0 k @ [TextGeneration ?p]"
    using extract_use_cases_cases [of svc "text" m w] by blast
  then show ?thesis
  proof cases
    case 1
    then show ?thesis using ok by auto
  next
    case 2
    have "\<forall>ev\<in>set (failed_attempts ?p 0 k @ [TextGeneration ?p]). extraction_of {text} ev"
      using ok by auto
    then show ?thesis using 2 by auto
  qed
qed

lemma extract_use_cases_error:
  "extract_use_cases svc text m w = Inl (e, w') \<Longrightarrow> e = RuntimeError"
  using extract_use_cases_cases [of svc "text" m w] by auto

lemma extract_use_cases_response:
  "extract_use_cases svc text m w = Inr (r, w') \<Longrightarrow> \<exists>n. svc n (prompt_template text) = Returns r"
  using extract_use_cases_cases [of svc "text" m w] by auto

lemma extraction_of_mono: "extraction_of A ev \<Longrightarrow> A \<subseteq> B \<Longrightarrow> extraction_of B ev"
  by (cases ev) auto

lemma process_chunks_trace:
  "(process_chunks svc cs acc w = Inl (e, outs, w') \<or> process_chunks svc cs acc w = Inr (outs, w'))
   \<Longrightarrow> \<exists>evs. trace w' = trace w @ evs \<and> (\<forall>ev\<in>set evs. extraction_of (set cs) ev)"
proof (induction cs arbitrary: acc w)
  case Nil
  then show ?case by simp
next
  case (Cons c cs)
  obtain evs1 where evs1: "trace (final_world (extract_use_cases svc c 5 w)) = trace w @ evs1"
      "\<forall>ev\<in>set evs1. extraction_of {c} ev"
    using extract_use_cases_trace [of svc c 5 w] by blast
  have in1: "\<forall>ev\<in>set evs1. extraction_of (set (c # cs)) ev"
    using evs1(2) extraction_of_mono [of "{c}" _ "set (c # cs)"] by simp
  show ?case
  proof (cases "extract_use_cases svc c 5 w")
    case (Inl a)
    then obtain e1 w1 where a: "a = (e1, w1)" by (cases a)
    then have "w' = w1" using Cons.prems Inl by simp
    then show ?thesis using evs1(1) in1 Inl a by auto
  next
    case (Inr b)
    then obtain r w1 where b: "b = (r, w1)" by (cases b)
    then have "process_chunks svc cs (acc @ [r]) w1 = Inl (e, outs, w')
        \<or> process_chunks svc cs (acc @ [r]) w1 = Inr (outs, w')"
      using Cons.prems Inr by simp
    then obtain evs2 where evs2: "trace w' = trace w1 @ evs2"
        "\<forall>ev\<in>set evs2. extraction_of (set cs) ev"
      using Cons.IH by blast
    have in2: "\<forall>ev\<in>set evs2. extraction_of (set (c # cs)) ev"
      using evs2(2) extraction_of_mono [of "set cs" _ "set (c # cs)"] by auto
    have "trace w' = trace w @ (evs1 @ evs2)" using evs1(1) evs2(1) Inr b by simp
    moreover have "\<forall>ev\<in>set (evs1 @ evs2). extraction_of (set (c # cs)) ev"
      using in1 in2 by auto
    ultimately show ?thesis by blast
  qed
qed

lemma process_chunks_error:
  "process_chunks svc cs acc w = Inl (e, outs, w') \<Longrightarrow> e = RuntimeError"
proof (induction cs arbitrary: acc w)
  case Nil
  then show ?case by simp
next
  case (Cons c cs)
  then show ?case
    by (auto split: sum.splits dest: extract_use_cases_error)
qed

lemma process_chunks_append:
  "process_chunks svc (xs @ ys) acc w =
     (case process_chunks svc xs acc w of
        Inl x \<Rightarrow> Inl x
      | Inr (outs, w') \<Rightarrow> process_chunks svc ys outs w')"
  by (induction xs arbitrary: acc w) (auto split: sum.splits)

lemma process_chunks_prefix:
  "process_chunks svc cs acc w = Inr (outs, w') \<Longrightarrow>
     \<exists>rest. outs = acc @ rest \<and> length rest = length cs"
proof (induction cs arbitrary: acc w)
  case Nil
  then show ?case by simp
next
  case (Cons c cs)
  then obtain r w1 where "extract_use_cases svc c 5 w = Inr (r, w1)"
      and "process_chunks svc cs (acc @ [r]) w1 = Inr (outs, w')"
    by (auto split: sum.splits)
  then obtain rest where "outs = (acc @ [r]) @ rest" "length rest = length cs"
    using Cons.IH by blast
  then have "outs = acc @ (r # rest) \<and> length (r # rest) = length (c # cs)" by simp
  then show ?case by blast
qed

lemma process_chunks_nth:
  assumes "process_chunks svc cs [] w = Inr (outs, w')" and "i < length cs"
  shows "\<exists>wi wi'. process_chunks svc (take i cs) [] w = Inr (take i outs, wi)
     \<and> extract_use_cases svc (cs ! i) 5 wi = Inr (outs ! i, wi')"
proof -
  have cs: "cs = take i cs @ cs ! i # drop (Suc i) cs"
    using assms(2) by (rule id_take_nth_drop)
  have "process_chunks svc (take i cs @ cs ! i # drop (Suc i) cs) [] w = Inr (outs, w')"
    using assms(1) cs by simp
  then obtain o1 wi where pre: "process_chunks svc (take i cs) [] w = Inr (o1, wi)"
      and post: "process_chunks svc (cs ! i # drop (Suc i) cs) o1 wi = Inr (outs, w')"
    unfolding process_chunks_append by (auto split: sum.splits)
  obtain r wi' where r: "extract_use_cases svc (cs ! i) 5 wi = Inr (r, wi')"
      and rest: "process_chunks svc (drop (Suc i) cs) (o1 @ [r]) wi' = Inr (outs, w')"
    using post by (auto split: sum.splits)
  have "length o1 = i" using process_chunks_prefix [OF pre] assms(2) by auto
  moreover obtain tl where "outs = (o1 @ [r]) @ tl" using process_chunks_prefix [OF rest] by blast
  ultimately have "take i outs = o1 \<and> outs ! i = r" by (simp add: nth_append)
  then show ?thesis using pre r by blast
qed


text \<open>
  Claim C5. Let the chunks be \<open>pre @ c # post\<close>, so that \<open>c\<close> is chunk \<open>i = length pre + 1\<close>, let
  the extractions of \<open>pre\<close> return \<open>outs\<close> and leave world \<open>w1\<close>, and let the extraction of \<open>c\<close>
  raise in world \<open>w2\<close>. Then the run ends with that exception, which is \<^verbatim>\<open>RuntimeError\<close>, in
  the very world \<open>w2\<close> in which chunk \<open>i\<close> gave up: \<^verbatim>\<open>all_structured_outputs\<close> holds the
  outputs of chunks 1 to \<open>i - 1\<close> and nothing else, each the service's answer to the prompt
  of its chunk; all that happened are service calls with prompts of chunks 1 to \<open>i\<close> and
  waits, so no chunk after \<open>i\<close> is extracted and no delivery is attempted.
\<close>

theorem main_aborts_on_exhaustion:
  assumes "process_chunks (service env) pre [] w = Inr (outs, w1)"
    and "extract_use_cases (service env) c 5 w1 = Inl (e, w2)"
  shows "main_from_chunks env (pre @ c # post) w = Aborted e outs w2
     \<and> e = RuntimeError
     \<and> length outs = length pre
     \<and> (\<forall>j<length pre. \<exists>n. service env n (prompt_template (pre ! j)) = Returns (outs ! j))
     \<and> (\<forall>ev\<in>set (new_events w w2). extraction_of (set (pre @ [c])) ev)"
proof -
  have "process_chunks (service env) (pre @ c # post) [] w = Inl (e, outs, w2)"
    using assms by (simp add: process_chunks_append)
  then have run: "main_from_chunks env (pre @ c # post) w = Aborted e outs w2"
    by (simp add: main_from_chunks_def)
  have err: "e = RuntimeError" using assms(2) by (rule extract_use_cases_error)
  have len: "length outs = length pre" using process_chunks_prefix [OF assms(1)] by auto
  have outs: "\<exists>n. service env n (prompt_template (pre ! j)) = Returns (outs ! j)"
    if "j < length pre" for j
    using process_chunks_nth [OF assms(1) that] extract_use_cases_response by blast
  obtain evs1 where evs1: "trace w1 = trace w @ evs1"
      "\<forall>ev\<in>set evs1. extraction_of (set pre) ev"
    using process_chunks_trace [of "service env" pre "[]" w _ outs w1] assms(1) by blast
  obtain evs2 where evs2: "trace w2 = trace w1 @ evs2" "\<forall>ev\<in>set evs2. extraction_of {c} ev"
    using extract_use_cases_trace [of "service env" c 5 w1] assms(2) by auto
  have "\<forall>ev\<in>set evs1. extraction_of (set (pre @ [c])) ev"
    using evs1(2) extraction_of_mono [of "set pre" _ "set (pre @ [c])"] by auto
  moreover have "\<forall>ev\<in>set evs2. extraction_of (set (pre @ [c])) ev"
    using evs2(2) extraction_of_mono [of "{c}" _ "set (pre @ [c])"] by auto
  moreover have "new_events w w2 = evs1 @ evs2"
    using evs1(1) evs2(1) by (simp add: new_events_def)
  ultimately have evs: "\<forall>ev\<in>set (new_events w w2). extraction_of (set (pre @ [c])) ev"
    by auto
  show ?thesis using run err len outs evs by blast
qed

text \<open>
  Three chunks with a service that answers only its first call: chunk 1 is extracted,
  chunk 2 uses up its 5 attempts, and the run aborts with one output.
\<close>

theorem main_aborts_on_exhaustion_witness:
  "process_chunks (service env_first_only) [lit ''a''] [] start
     = Inr ([lit ''uc1''],
         \<lparr>calls = 1, trace = [TextGeneration (prompt_template (lit ''a''))], stdout = []\<rparr>)
   \<and> extract_use_cases (service env_first_only) (lit ''b'') 5
        \<lparr>calls = 1, trace = [TextGeneration (prompt_template (lit ''a''))], stdout = []\<rparr>
     = Inl (RuntimeError, final_world (extract_use_cases (service env_first_only) (lit ''b'') 5
        \<lparr>calls = 1, trace = [TextGeneration (prompt_template (lit ''a''))], stdout = []\<rparr>))
   \<and> main_from_chunks env_first_only ([lit ''a''] @ lit ''b'' # [lit ''c'']) start
     = Aborted RuntimeError [lit ''uc1'']
         (final_world (extract_use_cases (service env_first_only) (lit ''b'') 5
        \<lparr>calls = 1, trace = [TextGeneration (prompt_template (lit ''a''))], stdout = []\<rparr>))"
proof -
  let ?w1 = "\<lparr>calls = 1, trace = [TextGeneration (prompt_template (lit ''a''))], stdout = []\<rparr>"
  have h1: "process_chunks (service env_first_only) [lit ''a''] [] start = Inr ([lit ''uc1''], ?w1)"
    by (simp add: env_first_only_def svc_first_only_def start_def extract_use_cases_def
        extract_loop.simps)
  have h2: "extract_use_cases (service env_first_only) (lit ''b'') 5 ?w1
     = Inl (RuntimeError, final_world (extract_use_cases (service env_first_only) (lit ''b'') 5 ?w1))"
    by (simp add: env_first_only_def svc_first_only_def extract_use_cases_def extract_loop.simps)
  show ?thesis
    using main_aborts_on_exhaustion [OF h1 h2, of "[lit ''c'']"] h1 h2 by simp
qed

lemma extractions_return_iff:
  "extractions_return svc cs w \<longleftrightarrow> (\<exists>outs w'. process_chunks svc cs acc w = Inr (outs, w'))"
  by (induction cs arbitrary: acc w) (auto split: sum.splits)

lemma process_chunks_abort:
  "process_chunks svc cs acc w = Inl (e, outs, w') \<Longrightarrow>
     \<exists>pre c post w1. cs = pre @ c # post
        \<and> process_chunks svc pre acc w = Inr (outs, w1)
        \<and> extract_use_cases svc c 5 w1 = Inl (e, w')"
proof (induction cs arbitrary: acc w)
  case Nil
  then show ?case by simp
next
  case (Cons c cs)
  show ?case
  proof (cases "extract_use_cases svc c 5 w")
    case (Inl a)
    then obtain e1 w1 where a: "a = (e1, w1)" by (cases a)
    then have "e = e1 \<and> outs = acc \<and> w' = w1" using Cons.prems Inl by simp
    then have "c # cs = [] @ c # cs \<and> process_chunks svc [] acc w = Inr (outs, w)
        \<and> extract_use_cases svc c 5 w = Inl (e, w')"
      using Inl a by simp
    then show ?thesis by blast
  next
    case (Inr b)
    then obtain r w1 where b: "b = (r, w1)" by (cases b)
    then have "process_chunks svc cs (acc @ [r]) w1 = Inl (e, outs, w')"
      using Cons.prems Inr by simp
    then obtain pre c' post w2 where rest: "cs = pre @ c' # post"
        "process_chunks svc pre (acc @ [r]) w1 = Inr (outs, w2)"
        "extract_use_cases svc c' 5 w2 = Inl (e, w')"
      using Cons.IH by blast
    have "c # cs = (c # pre) @ c' # post \<and> process_chunks svc (c # pre) acc w = Inr (outs, w2)
        \<and> extract_use_cases svc c' 5 w2 = Inl (e, w')"
      using rest Inr b by simp
    then show ?thesis by blast
  qed
qed

lemma main_from_chunks_outputs:
  "process_chunks (service env) chunks [] w = Inr (outs, w') \<Longrightarrow>
     run_outputs (main_from_chunks env chunks w) = outs"
  by (simp add: main_from_chunks_def split: prod.splits sum.splits)

lemma main_from_chunks_rendering_fails:
  assumes "process_chunks (service env) chunks [] w = Inr (outs, w')"
    and "rendering env outs = Some e"
  shows "\<exists>w''. main_from_chunks env chunks w = Aborted e outs w'' \<and> trace w'' = trace w'"
proof -
  obtain rs w1 where rr: "read_recipients_from_file (recipients_file env)
      (print ReadingRecipients w') = (rs, w1)"
    by (cases "read_recipients_from_file (recipients_file env) (print ReadingRecipients w')")
  have tr: "trace w1 = trace w'"
    using rr by (auto simp: read_recipients_from_file_def print_def Let_def
        split: option.splits if_splits)
  have "main_from_chunks env chunks w = Aborted e outs (print SendingEmail w1)"
    using assms rr by (simp add: main_from_chunks_def send_docx_via_email_def)
  moreover have "trace (print SendingEmail w1) = trace w'" using tr by (simp add: print_def)
  ultimately show ?thesis by blast
qed

lemma rendering_failure_example:
  "exit_code (main env_form_feed) = 1
   \<and> main env_form_feed = Aborted ValueError [[97, 12, 98]]
        \<lparr>calls = 1, trace = [TextGeneration (prompt_template (lit ''a''))],
           stdout = [ReadingDocument, SplittingDocument, TotalChunks 1, ReadingRecipients,
                     SendingEmail]\<rparr>"
  by (simp add: env_form_feed_def main_def smart_split_text_def lit_def isspace_def
      main_from_chunks_def extract_use_cases_def extract_loop.simps start_def
      print_def read_recipients_from_file_def send_docx_via_email_def Let_def py_strip_def
      is_valid_email_def local_char_def domain_char_def alpha_def digit_def at_end_def)

text \<open>
  Claim C7. When no extraction raises, the loop over the chunks returns and the run ends
  with one structured output for each chunk in \<^verbatim>\<open>all_structured_outputs\<close>, in the order of
  the chunks: output \<open>i\<close> is what the extraction of chunk \<open>i\<close> returned in the world left by
  the chunks before it, which is an answer of the service to the prompt of chunk \<open>i\<close>.
\<close>

theorem main_one_output_per_chunk:
  assumes "extractions_return (service env) chunks w"
  shows "\<exists>outs w'. process_chunks (service env) chunks [] w = Inr (outs, w')
     \<and> run_outputs (main_from_chunks env chunks w) = outs
     \<and> length outs = length chunks
     \<and> (\<forall>i<length chunks. \<exists>wi wi'.
            process_chunks (service env) (take i chunks) [] w = Inr (take i outs, wi)
          \<and> extract_use_cases (service env) (chunks ! i) 5 wi = Inr (outs ! i, wi'))
     \<and> (\<forall>i<length chunks. \<exists>n. service env n (prompt_template (chunks ! i)) = Returns (outs ! i))"
proof -
  obtain outs w' where loop: "process_chunks (service env) chunks [] w = Inr (outs, w')"
    using assms extractions_return_iff [of "service env" chunks w "[]"] by blast
  have out: "run_outputs (main_from_chunks env chunks w) = outs"
    using loop by (rule main_from_chunks_outputs)
  have len: "length outs = length chunks" using process_chunks_prefix [OF loop] by auto
  have nth: "\<exists>wi wi'. process_chunks (service env) (take i chunks) [] w = Inr (take i outs, wi)
      \<and> extract_use_cases (service env) (chunks ! i) 5 wi = Inr (outs ! i, wi')"
    if "i < length chunks" for i
    using process_chunks_nth [OF loop that] .
  have resp: "\<exists>n. service env n (prompt_template (chunks ! i)) = Returns (outs ! i)"
    if "i < length chunks" for i
    using nth [OF that] extract_use_cases_response by blast
  show ?thesis using loop out len nth resp by blast
qed

text \<open>
  Two chunks with a service that answers with the prompt it was sent.
\<close>

theorem main_one_output_per_chunk_witness:
  "extractions_return (service env_echo) [lit ''a'', lit ''b''] start
   \<and> run_outputs (main_from_chunks env_echo [lit ''a'', lit ''b''] start)
       = [prompt_template (lit ''a''), prompt_template (lit ''b'')]
   \<and> length [prompt_template (lit ''a''), prompt_template (lit ''b'')]
       = length [lit ''a'', lit ''b'']"
proof -
  have h: "extractions_return (service env_echo) [lit ''a'', lit ''b''] start"
    by (simp add: env_echo_def svc_echo_def start_def extract_use_cases_def extract_loop.simps)
  have loop: "process_chunks (service env_echo) [lit ''a'', lit ''b''] [] start
     = Inr ([prompt_template (lit ''a''), prompt_template (lit ''b'')],
         \<lparr>calls = 2, trace = [TextGeneration (prompt_template (lit ''a'')),
            TextGeneration (prompt_template (lit ''b''))], stdout = []\<rparr>)"
    by (simp add: env_echo_def svc_echo_def start_def extract_use_cases_def extract_loop.simps)
  obtain outs w' where "process_chunks (service env_echo) [lit ''a'', lit ''b''] [] start
        = Inr (outs, w')"
      and "run_outputs (main_from_chunks env_echo [lit ''a'', lit ''b''] start) = outs"
    using main_one_output_per_chunk [OF h] by blast
  then have "run_outputs (main_from_chunks env_echo [lit ''a'', lit ''b''] start)
       = [prompt_template (lit ''a''), prompt_template (lit ''b'')]"
    using loop by simp
  then show ?thesis using h by simp
qed

section \<open>Properties of the recipient list\<close>

lemma recipient_emails_eq:
  "map py_strip (filter (\<lambda>line. py_strip line \<noteq> []) lines)
     = filter (\<lambda>e. e \<noteq> []) (map py_strip lines)"
  by (simp add: filter_map comp_def)

text \<open>
  Claim C8, as amended. Each line of the recipients file is stripped of surrounding
  whitespace; \<^verbatim>\<open>read_recipients_from_file\<close> returns, in the order of the file, exactly the
  stripped entries that are non-empty and match the pattern of \<^verbatim>\<open>is_valid_email\<close>. Every other
  entry is dropped and the function still returns: nothing but printing happens, and the
  warning is printed exactly when some non-empty stripped entry fails the pattern, naming
  those entries. The lines \<^verbatim>\<open>a@b.com\<close>, \<^verbatim>\<open>not-an-email\<close>, \<^verbatim>\<open>c@d.org\<close> give \<^verbatim>\<open>a@b.com\<close>, \<^verbatim>\<open>c@d.org\<close>.
\<close>

theorem read_recipients_keeps_valid:
  "fst (read_recipients_from_file (Some lines) w)
       = filter (\<lambda>e. e \<noteq> [] \<and> is_valid_email e) (map py_strip lines)
   \<and> trace (snd (read_recipients_from_file (Some lines) w)) = trace w
   \<and> stdout (snd (read_recipients_from_file (Some lines) w)) = stdout w @
       (if \<exists>e\<in>set (map py_strip lines). e \<noteq> [] \<and> \<not> is_valid_email e
        then [InvalidEmailsWarning {e \<in> set (map py_strip lines). e \<noteq> [] \<and> \<not> is_valid_email e}]
        else [])
   \<and> fst (read_recipients_from_file
         (Some [lit ''a@b.com'', lit ''not-an-email'', lit ''c@d.org'']) w)
       = [lit ''a@b.com'', lit ''c@d.org'']"
proof -
  let ?es = "filter (\<lambda>e. e \<noteq> []) (map py_strip lines)"
  have inv: "set ?es - set (filter is_valid_email ?es)
      = {e \<in> set (map py_strip lines). e \<noteq> [] \<and> \<not> is_valid_email e}"
    by auto
  have a: "fst (read_recipients_from_file (Some lines) w)
       = filter (\<lambda>e. e \<noteq> [] \<and> is_valid_email e) (map py_strip lines)"
    by (simp add: read_recipients_from_file_def Let_def recipient_emails_eq conj_commute)
  have b: "trace (snd (read_recipients_from_file (Some lines) w)) = trace w"
    by (simp add: read_recipients_from_file_def Let_def print_def)
  have c: "stdout (snd (read_recipients_from_file (Some lines) w)) = stdout w @
       (if \<exists>e\<in>set (map py_strip lines). e \<noteq> [] \<and> \<not> is_valid_email e
        then [InvalidEmailsWarning {e \<in> set (map py_strip lines). e \<noteq> [] \<and> \<not> is_valid_email e}]
        else [])"
    unfolding read_recipients_from_file_def Let_def recipient_emails_eq inv
    by (auto simp: print_def)
  have d: "fst (read_recipients_from_file
         (Some [lit ''a@b.com'', lit ''not-an-email'', lit ''c@d.org'']) w)
       = [lit ''a@b.com'', lit ''c@d.org'']"
    by (simp add: read_recipients_from_file_def Let_def lit_def py_strip_def isspace_def
      is_valid_email_def local_char_def domain_char_def alpha_def digit_def at_end_def)
  show ?thesis using a b c d by blast
qed

text \<open>
  A padded address, an empty line and a bad entry: the warning names the bad entry.
\<close>

theorem read_recipients_keeps_valid_witness:
  "(\<exists>e\<in>set (map py_strip [lit ''  a@b.com '', [], lit ''x'']). e \<noteq> [] \<and> \<not> is_valid_email e)
   \<and> fst (read_recipients_from_file (Some [lit ''  a@b.com '', [], lit ''x'']) start)
       = filter (\<lambda>e. e \<noteq> [] \<and> is_valid_email e) (map py_strip [lit ''  a@b.com '', [], lit ''x''])
   \<and> stdout (snd (read_recipients_from_file (Some [lit ''  a@b.com '', [], lit ''x'']) start))
       = stdout start @ [InvalidEmailsWarning
           {e \<in> set (map py_strip [lit ''  a@b.com '', [], lit ''x'']). e \<noteq> [] \<and> \<not> is_valid_email e}]"
proof -
  have h: "\<exists>e\<in>set (map py_strip [lit ''  a@b.com '', [], lit ''x'']). e \<noteq> [] \<and> \<not> is_valid_email e"
    by (simp add: lit_def py_strip_def isspace_def
      is_valid_email_def local_char_def domain_char_def alpha_def digit_def at_end_def)
  note t = read_recipients_keeps_valid [of "[lit ''  a@b.com '', [], lit ''x'']" start]
  have a: "fst (read_recipients_from_file (Some [lit ''  a@b.com '', [], lit ''x'']) start)
       = filter (\<lambda>e. e \<noteq> [] \<and> is_valid_email e) (map py_strip [lit ''  a@b.com '', [], lit ''x''])"
    using t by (rule conjunct1)
  have c: "stdout (snd (read_recipients_from_file (Some [lit ''  a@b.com '', [], lit ''x'']) start))
       = stdout start @ [InvalidEmailsWarning
           {e \<in> set (map py_strip [lit ''  a@b.com '', [], lit ''x'']). e \<noteq> [] \<and> \<not> is_valid_email e}]"
    using t [THEN conjunct2, THEN conjunct2, THEN conjunct1] h by (simp only: if_True)
  show ?thesis using h a c by (intro conjI)
qed

text \<open>
  Claim C8 as it was stated keeps the lines that match the pattern and warns about every
  other entry. The line \<^verbatim>\<open>" a@b.com"\<close> does not match the pattern, yet its stripped form is
  kept; and blank lines are dropped with no warning at all.
\<close>

theorem read_recipients_keeps_valid_counterexample:
  "fst (read_recipients_from_file (Some [lit '' a@b.com'']) start) = [lit ''a@b.com'']
   \<and> \<not> is_valid_email (lit '' a@b.com'')
   \<and> filter (\<lambda>line. py_strip line \<noteq> [] \<and> is_valid_email line) [lit '' a@b.com''] = []
   \<and> read_recipients_from_file (Some [lit '' '', []]) start = ([], start)"
  by (simp add: read_recipients_from_file_def Let_def lit_def py_strip_def isspace_def
      is_valid_email_def local_char_def domain_char_def alpha_def digit_def at_end_def)

section \<open>Properties of the mailer\<close>

text \<open>
  Claim C6, as amended. Let the document be read and split into chunks, let no extraction
  raise, let the output document be rendered, and let the SMTP block fail. Then the failure
  is caught inside \<^verbatim>\<open>send_docx_via_email\<close> and reported by a printed line; it does not
  propagate: \<^verbatim>\<open>main\<close> returns after one delivery attempt, having printed the failure and
  then its closing line, and the exit status is 0.
\<close>

theorem send_failure_is_reported:
  assumes "smtp env = Some failure"
    and "document env = Inr raw_text"
    and "smart_split_text raw_text 3000 500 = Inr chunks"
    and "process_chunks (service env) chunks []
           (print (TotalChunks (length chunks)) (print SplittingDocument
              (print ReadingDocument start))) = Inr (outs, w')"
    and "rendering env outs = None"
  shows "\<exists>w''. main env = Finished outs w''
      \<and> exit_code (main env) = 0
      \<and> (\<exists>recipient_emails. trace w'' = trace w' @ [SmtpAttempt recipient_emails outs])
      \<and> (\<exists>msgs. stdout w'' = msgs @ [EmailFailed failure, Done])"
proof -
  obtain rs w1 where rr: "read_recipients_from_file (recipients_file env)
      (print ReadingRecipients w') = (rs, w1)"
    by (cases "read_recipients_from_file (recipients_file env) (print ReadingRecipients w')")
  have tr: "trace w1 = trace w'"
    using rr by (auto simp: read_recipients_from_file_def print_def Let_def
        split: option.splits if_splits)
  define w2 where "w2 = print (EmailFailed failure)
      ((print SendingEmail w1)\<lparr>trace := trace (print SendingEmail w1) @ [SmtpAttempt rs outs]\<rparr>)"
  define w'' where "w'' = print Done w2"
  have send: "send_docx_via_email (rendering env) (smtp env) outs rs (print SendingEmail w1)
      = Inr w2"
    using assms(1,5) by (simp add: send_docx_via_email_def Let_def w2_def)
  have m: "main env = Finished outs w''"
    using assms(2,3,4) rr send by (simp add: main_def main_from_chunks_def Let_def w''_def)
  have t: "trace w'' = trace w' @ [SmtpAttempt rs outs]"
    using tr by (simp add: w''_def w2_def print_def)
  have s: "stdout w'' = (stdout w1 @ [SendingEmail]) @ [EmailFailed failure, Done]"
    by (simp add: w''_def w2_def print_def)
  show ?thesis using m t s by (auto simp del: append_assoc)
qed

text \<open>
  A run in which the mail server refuses the login.
\<close>

theorem send_failure_is_reported_witness:
  "smtp env_login_refused = Some LoginFailed
   \<and> document env_login_refused = Inr (lit ''a'')
   \<and> smart_split_text (lit ''a'') 3000 500 = Inr [lit ''a'']
   \<and> process_chunks (service env_login_refused) [lit ''a''] []
         (print (TotalChunks (length [lit ''a''])) (print SplittingDocument
            (print ReadingDocument start)))
       = Inr ([prompt_template (lit ''a'')],
           \<lparr>calls = 1, trace = [TextGeneration (prompt_template (lit ''a''))],
              stdout = [ReadingDocument, SplittingDocument, TotalChunks 1]\<rparr>)
   \<and> rendering env_login_refused [prompt_template (lit ''a'')] = None
   \<and> (\<exists>w''. main env_login_refused = Finished [prompt_template (lit ''a'')] w''
      \<and> exit_code (main env_login_refused) = 0
      \<and> (\<exists>msgs. stdout w'' = msgs @ [EmailFailed LoginFailed, Done]))"
proof -
  have h1: "smtp env_login_refused = Some LoginFailed"
    and h2: "document env_login_refused = Inr (lit ''a'')"
    and h5: "rendering env_login_refused [prompt_template (lit ''a'')] = None"
    by (simp_all add: env_login_refused_def)
  have h3: "smart_split_text (lit ''a'') 3000 500 = Inr [lit ''a'']"
    by (simp add: smart_split_text_def lit_def isspace_def)
  have h4: "process_chunks (service env_login_refused) [lit ''a''] []
         (print (TotalChunks (length [lit ''a''])) (print SplittingDocument
            (print ReadingDocument start)))
       = Inr ([prompt_template (lit ''a'')],
           \<lparr>calls = 1, trace = [TextGeneration (prompt_template (lit ''a''))],
              stdout = [ReadingDocument, SplittingDocument, TotalChunks 1]\<rparr>)"
    by (simp add: env_login_refused_def svc_echo_def start_def print_def extract_use_cases_def
        extract_loop.simps)
  show ?thesis
    using send_failure_is_reported [OF h1 h2 h3 h4 h5] h1 h2 h3 h4 h5 by blast
qed

text \<open>
  Claim C6 as it was stated lets the failure propagate and the process exit non-zero. In
  the run in which the login is refused, extraction succeeds, the document is rendered, the
  failure is printed, the closing line follows and the exit status is 0.
\<close>

theorem send_failure_counterexample:
  "smtp env_login_refused = Some LoginFailed
   \<and> exit_code (main env_login_refused) = 0
   \<and> run_outputs (main env_login_refused) = [prompt_template (lit ''a'')]
   \<and> stdout (run_world (main env_login_refused)) =
        [ReadingDocument, SplittingDocument, TotalChunks 1, ReadingRecipients, SendingEmail,
         EmailFailed LoginFailed, Done]"
  by (simp add: env_login_refused_def main_def smart_split_text_def lit_def isspace_def
      main_from_chunks_def extract_use_cases_def extract_loop.simps svc_echo_def start_def
      print_def read_recipients_from_file_def send_docx_via_email_def Let_def py_strip_def
      is_valid_email_def local_char_def domain_char_def alpha_def digit_def at_end_def)

end
